theory Spec2Isabelle
  imports Main
begin

section \<open>The data of \<open>blockutils.py\<close>\<close>

text \<open>
  A \<open>QUrl\<close> as the code reads it: \<open>url.scheme()\<close> and \<open>url.toLocalFile()\<close>.
\<close>

datatype QUrl = QUrl (scheme: string) (toLocalFile: string)

text \<open>An entry of \<open>os.scandir\<close>: \<open>entry.path\<close> and \<open>entry.is_file()\<close>.\<close>

record DirEntry =
  path :: string
  is_file :: bool

text \<open>An \<open>OSError\<close>, of which the code reads \<open>e.strerror\<close>.\<close>

datatype OSError = OSError (strerror: string)

text \<open>
  A file object returned by \<open>open(filename, "rb")\<close>: every call of \<open>open\<close> makes a new
  object, so a file object carries its identity beside the name it was opened with.
\<close>

datatype fileobj = FileObj (fileno: nat) (name: string)

text \<open>
  The attribute \<open>download.fileobj\<close>: the two assertions of \<open>_on_download_finished\<close>
  tell an \<open>UnsupportedAttribute\<close> and \<open>None\<close> from a file object.
\<close>

datatype fileobj_attr = UnsupportedAttribute | NoneValue | IO fileobj

text \<open>
  A download as \<open>_on_download_finished\<close> receives it. \<open>ident\<close> is the identity of the
  Python object: \<open>_in_progress\<close> holds references, and \<open>list.remove\<close> finds a download
  by identity. \<open>successful\<close> and \<open>fileobj\<close> are the attributes at the time of the call.
\<close>

record TempDownload =
  ident :: nat
  successful :: bool
  fileobj :: fileobj_attr

text \<open>\<open>class FakeDownload\<close>: its \<open>__init__\<close> stores the file and sets \<open>successful\<close>.\<close>

definition FakeDownload :: "nat \<Rightarrow> fileobj \<Rightarrow> TempDownload" where
  "FakeDownload i f = \<lparr>ident = i, successful = True, fileobj = IO f\<rparr>"

text \<open>The exceptions that leave a method of the class.\<close>

datatype exn =
    ValueError string
  | AssertionError
  | OSErr OSError
  | Raised string

text \<open>
  What \<open>open(filename, "rb")\<close> does: it returns a file object, or raises an \<open>OSError\<close>
  (which line 133 catches), or raises something else, which line 133 does not catch:
  a \<open>ValueError\<close> when the name holds a NUL character, a \<open>UnicodeEncodeError\<close> when it
  cannot be encoded.
\<close>

datatype open_outcome = Opened | OpenOSError OSError | OpenRaises exn

text \<open>The attributes of a \<open>BlocklistDownloads\<close> object that its methods assign.\<close>

record BlocklistDownloads =
  urls :: "QUrl list"
  in_progress :: "nat list"
  done_count :: nat
  finished_registering_downloads :: bool
  started :: bool
  finished :: bool

text \<open>
  What the object does to the world outside, and to its in-flight list, in order: the
  calls of \<open>os.scandir\<close>, \<open>open\<close>, \<open>message.error\<close>, \<open>downloads.download_temp\<close>,
  \<open>download.finished.connect\<close>, \<open>_in_progress.append\<close>, the user's two callbacks (with
  the exception they raised, if any) and \<open>fileobj.close\<close>.
\<close>

datatype event =
    Scandir string
  | Open string
  | MessageError string
  | DownloadTemp QUrl nat
  | Connect nat
  | Append nat
  | UserCbSingle fileobj "exn option"
  | Close fileobj
  | UserCbAll nat "exn option"

text \<open>
  The state the methods run in: the object, the trace of its events, each with the
  attributes of the object at the time of the event, and the next fresh object identity.
\<close>

record world =
  self :: BlocklistDownloads
  trace :: "(event \<times> BlocklistDownloads) list"
  next_ident :: nat

text \<open>
  The collaborators: the file system (\<open>os.path.isdir\<close>; \<open>os.scandir\<close>, which may raise
  \<open>OSError\<close>; \<open>open\<close>, which may raise \<open>OSError\<close> or another exception) and the two
  callbacks given to \<open>__init__\<close>, which return (\<open>None\<close>) or raise.
\<close>

record env =
  isdir :: "string \<Rightarrow> bool"
  scandir :: "string \<Rightarrow> OSError + DirEntry list"
  open_rb :: "string \<Rightarrow> open_outcome"
  user_cb_single :: "fileobj \<Rightarrow> exn option"
  user_cb_all :: "nat \<Rightarrow> exn option"

type_synonym result = "exn option \<times> world"

section \<open>The methods of \<open>BlocklistDownloads\<close>\<close>

text \<open>\<open>__init__\<close>: nothing is fetched, nothing is called.\<close>

definition BlocklistDownloads_init :: "QUrl list \<Rightarrow> world" where
  "BlocklistDownloads_init us =
     \<lparr>self = \<lparr>urls = us, in_progress = [], done_count = 0,
              finished_registering_downloads = False, started = False, finished = False\<rparr>,
      trace = [], next_ident = 0\<rparr>"

definition emit :: "event \<Rightarrow> world \<Rightarrow> world" where
  "emit e w = w\<lparr>trace := trace w @ [(e, self w)]\<rparr>"

text \<open>Sequencing: an exception of the first part skips the second.\<close>

definition and_then :: "result \<Rightarrow> (world \<Rightarrow> result) \<Rightarrow> result" where
  "and_then r f = (case r of (Some e, w) \<Rightarrow> (Some e, w) | (None, w) \<Rightarrow> f w)"

text \<open>\<open>self._user_cb_all(self._done_count)\<close>\<close>

definition call_user_cb_all :: "env \<Rightarrow> world \<Rightarrow> result" where
  "call_user_cb_all E w =
     (let n = done_count (self w); r = user_cb_all E n
      in (r, emit (UserCbAll n r) w))"

text \<open>
  \<open>_on_download_finished\<close>: \<open>list.remove\<close> raises \<open>ValueError\<close> when the download is
  not in the list; the \<open>finally\<close> closes the file whether the callback returned or raised,
  and an exception of the callback skips the final check.
\<close>

definition on_download_finished :: "env \<Rightarrow> TempDownload \<Rightarrow> world \<Rightarrow> result" where
  "on_download_finished E download w =
     (if ident download \<notin> set (in_progress (self w))
      then (Some (ValueError ''list.remove(x): x not in list''), w)
      else
        let w1 = w\<lparr>self := (self w)\<lparr>in_progress :=
                       remove1 (ident download) (in_progress (self w))\<rparr>\<rparr>
        in and_then
          (if successful download then
             let w2 = w1\<lparr>self := (self w1)\<lparr>done_count := done_count (self w1) + 1\<rparr>\<rparr>
             in (case fileobj download of
                   UnsupportedAttribute \<Rightarrow> (Some AssertionError, w2)
                 | NoneValue \<Rightarrow> (Some AssertionError, w2)
                 | IO f \<Rightarrow>
                     let r = user_cb_single E f
                     in (r, emit (Close f) (emit (UserCbSingle f r) w2)))
           else (None, w1))
          (\<lambda>w3. if in_progress (self w3) = [] \<and> finished_registering_downloads (self w3)
                then call_user_cb_all E (w3\<lparr>self := (self w3)\<lparr>finished := True\<rparr>\<rparr>)
                else (None, w3)))"

text \<open>
  \<open>_import_local\<close>: an \<open>OSError\<close> of \<open>open\<close> is reported and the method returns; any
  other exception of \<open>open\<close> leaves the method; otherwise a \<open>FakeDownload\<close> is made,
  appended and finished at once.
\<close>

definition import_local :: "env \<Rightarrow> string \<Rightarrow> world \<Rightarrow> result" where
  "import_local E filename w =
     (let w0 = emit (Open filename) w
      in case open_rb E filename of
           OpenOSError e \<Rightarrow>
             (None, emit (MessageError (''blockutils: Error while reading '' @ filename
                                          @ '': '' @ strerror e)) w0)
         | OpenRaises x \<Rightarrow> (Some x, w0)
         | Opened \<Rightarrow>
             let f = FileObj (next_ident w0) filename;
                 download = FakeDownload (next_ident w0 + 1) f;
                 w1 = w0\<lparr>next_ident := next_ident w0 + 2\<rparr>;
                 w2 = emit (Append (ident download))
                        (w1\<lparr>self := (self w1)\<lparr>in_progress :=
                               in_progress (self w1) @ [ident download]\<rparr>\<rparr>)
             in on_download_finished E download w2)"

text \<open>\<open>for entry in os.scandir(filename): if entry.is_file(): ...\<close>\<close>

fun import_entries :: "env \<Rightarrow> DirEntry list \<Rightarrow> world \<Rightarrow> result" where
  "import_entries E [] w = (None, w)"
| "import_entries E (entry # entries) w =
     (if is_file entry
      then (case import_local E (path entry) w of
              (Some e, w') \<Rightarrow> (Some e, w')
            | (None, w') \<Rightarrow> import_entries E entries w')
      else import_entries E entries w)"

text \<open>\<open>_download_blocklist_url\<close>\<close>

definition download_blocklist_url :: "env \<Rightarrow> QUrl \<Rightarrow> world \<Rightarrow> result" where
  "download_blocklist_url E url w =
     (if scheme url = ''file'' then
        let filename = toLocalFile url
        in if isdir E filename then
             (case scandir E filename of
                Inl e \<Rightarrow> (Some (OSErr e), emit (Scandir filename) w)
              | Inr entries \<Rightarrow> import_entries E entries (emit (Scandir filename) w))
           else import_local E filename w
      else
        let d = next_ident w;
            w1 = emit (DownloadTemp url d) (w\<lparr>next_ident := d + 1\<rparr>);
            w2 = emit (Append d)
                   (w1\<lparr>self := (self w1)\<lparr>in_progress := in_progress (self w1) @ [d]\<rparr>\<rparr>)
        in (None, emit (Connect d) w2))"

text \<open>\<open>for url in self._urls: self._download_blocklist_url(url)\<close>\<close>

fun download_urls :: "env \<Rightarrow> QUrl list \<Rightarrow> world \<Rightarrow> result" where
  "download_urls E [] w = (None, w)"
| "download_urls E (url # us) w =
     (case download_blocklist_url E url w of
        (Some e, w') \<Rightarrow> (Some e, w')
      | (None, w') \<Rightarrow> download_urls E us w')"

text \<open>
  \<open>initiate\<close>. With no URL the callback is called before \<open>_finished\<close> is set, and
  \<open>_finished_registering_downloads\<close> is left as it was.
\<close>

definition initiate :: "env \<Rightarrow> world \<Rightarrow> result" where
  "initiate E w =
     (if started (self w)
      then (Some (ValueError ''This download has already been initiated''), w)
      else
        let w1 = w\<lparr>self := (self w)\<lparr>started := True\<rparr>\<rparr>
        in if length (urls (self w1)) = 0 then
             and_then (call_user_cb_all E w1)
               (\<lambda>w2. (None, w2\<lparr>self := (self w2)\<lparr>finished := True\<rparr>\<rparr>))
           else
             and_then (download_urls E (urls (self w1)) w1)
               (\<lambda>w2. let w3 = w2\<lparr>self := (self w2)\<lparr>finished_registering_downloads := True\<rparr>\<rparr>
                     in if in_progress (self w3) = []
                        then call_user_cb_all E (w3\<lparr>self := (self w3)\<lparr>finished := True\<rparr>\<rparr>)
                        else (None, w3)))"

section \<open>Runs\<close>

text \<open>
  The calls an object receives, one after another, each run to its end before the next
  starts: \<open>initiate()\<close> from its owner, and \<open>_on_download_finished(download)\<close> from the
  \<open>finished\<close> signal of a download. An exception ends the call that raised it, not the run.
\<close>

datatype call = Initiate | DownloadFinished TempDownload

fun step :: "env \<Rightarrow> call \<Rightarrow> world \<Rightarrow> result" where
  "step E Initiate w = initiate E w"
| "step E (DownloadFinished d) w = on_download_finished E d w"

fun exec :: "env \<Rightarrow> call list \<Rightarrow> world \<Rightarrow> world" where
  "exec E [] w = w"
| "exec E (c # cs) w = exec E cs (snd (step E c w))"

section \<open>Reading a trace\<close>

type_synonym stamped = "event \<times> BlocklistDownloads"

text \<open>
  The calls of the all-done callback and of the per-item callback in a trace, and the
  number of downloads appended to \<open>_in_progress\<close> (dispatched) so far.
\<close>

fun is_cb_all :: "event \<Rightarrow> bool" where
  "is_cb_all (UserCbAll n r) = True"
| "is_cb_all _ = False"

fun is_cb_single :: "event \<Rightarrow> bool" where
  "is_cb_single (UserCbSingle f r) = True"
| "is_cb_single _ = False"

fun is_append :: "event \<Rightarrow> bool" where
  "is_append (Append d) = True"
| "is_append _ = False"

definition all_done_calls :: "stamped list \<Rightarrow> stamped list" where
  "all_done_calls tr = filter (\<lambda>p. is_cb_all (fst p)) tr"

definition single_calls :: "stamped list \<Rightarrow> stamped list" where
  "single_calls tr = filter (\<lambda>p. is_cb_single (fst p)) tr"

definition dispatched :: "stamped list \<Rightarrow> nat" where
  "dispatched tr = length (filter (\<lambda>p. is_append (fst p)) tr)"

section \<open>Invariants\<close>

text \<open>
  \<open>stamp_ok\<close>: at a call of the all-done callback nothing is in flight, and the
  registration of the downloads is over or there was no URL at all.
  \<open>stamps_bounded k tr\<close>: at every event of \<open>tr\<close> the successes and the in-flight
  downloads together were no more than \<open>k\<close> plus the downloads dispatched up to that event.
  \<open>consistent\<close>: the in-flight downloads are distinct objects that exist, the successes and
  the in-flight downloads together are no more than the downloads dispatched, now and at
  every event so far, and every call of the all-done callback so far was \<open>stamp_ok\<close>.
  \<open>evolves\<close>: what every method below \<open>initiate\<close> keeps.
  \<open>fired_inv\<close>: the all-done callback was not called and \<open>_finished\<close> is not set, or it
  was called once and nothing is in flight.
  \<open>reach_inv\<close>: what holds of an object built from \<open>us\<close> after any calls.
\<close>

fun stamp_ok :: "stamped \<Rightarrow> bool" where
  "stamp_ok (UserCbAll n r, s) =
     (in_progress s = [] \<and> (finished_registering_downloads s \<or> urls s = []))"
| "stamp_ok (e, s) = True"

fun stamps_bounded :: "nat \<Rightarrow> stamped list \<Rightarrow> bool" where
  "stamps_bounded k [] = True"
| "stamps_bounded k ((e, s) # tr) =
     (done_count s + length (in_progress s) \<le> (if is_append e then Suc k else k) \<and>
      stamps_bounded (if is_append e then Suc k else k) tr)"

definition consistent :: "world \<Rightarrow> bool" where
  "consistent w = (distinct (in_progress (self w)) \<and>
           list_all (\<lambda>d. d < next_ident w) (in_progress (self w)) \<and>
           done_count (self w) + length (in_progress (self w)) \<le> dispatched (trace w) \<and>
           stamps_bounded 0 (trace w) \<and>
           list_all stamp_ok (trace w))"

definition evolves :: "world \<Rightarrow> world \<Rightarrow> bool" where
  "evolves w w' =
     (urls (self w') = urls (self w) \<and>
      started (self w') = started (self w) \<and>
      finished_registering_downloads (self w') = finished_registering_downloads (self w) \<and>
      (consistent w \<longrightarrow> consistent w') \<and>
      (\<not> finished_registering_downloads (self w) \<longrightarrow>
         all_done_calls (trace w') = all_done_calls (trace w) \<and>
         finished (self w') = finished (self w)))"

definition fired_inv :: "world \<Rightarrow> bool" where
  "fired_inv w =
     ((all_done_calls (trace w) = [] \<and> \<not> finished (self w)) \<or>
      (length (all_done_calls (trace w)) = 1 \<and> in_progress (self w) = []))"

definition reach_inv :: "QUrl list \<Rightarrow> world \<Rightarrow> bool" where
  "reach_inv us w =
     (urls (self w) = us \<and> (\<not> started (self w) \<longrightarrow> w = BlocklistDownloads_init us) \<and>
      consistent w \<and> fired_inv w)"

text \<open>
  \<open>pending\<close>: the registration is over, and the all-done callback was called once if
  nothing is in flight and was not called if something is.
\<close>

definition pending :: "world \<Rightarrow> bool" where
  "pending w =
     (finished_registering_downloads (self w) \<and> distinct (in_progress (self w)) \<and>
      (if in_progress (self w) = [] then length (all_done_calls (trace w)) = 1
       else all_done_calls (trace w) = []))"

section \<open>Local files\<close>

text \<open>
  The file names passed to \<open>open\<close> and to \<open>os.scandir\<close> in a trace. \<open>openable\<close>: \<open>open\<close> does
  not raise; \<open>open_caught\<close>: \<open>open\<close> returns or raises an \<open>OSError\<close>, nothing else;
  \<open>returns_on\<close>: the per-item callback returns on every file object opened under that
  name. \<open>registering\<close>: \<open>initiate\<close> is still in its loop and nothing is in
  flight. \<open>imported E fs w res\<close>: what importing the local files \<open>fs\<close> from \<open>w\<close> comes to.
\<close>

fun opened_names :: "event \<Rightarrow> string list" where
  "opened_names (Open filename) = [filename]"
| "opened_names _ = []"

fun scanned_names :: "event \<Rightarrow> string list" where
  "scanned_names (Scandir filename) = [filename]"
| "scanned_names _ = []"

definition opened :: "stamped list \<Rightarrow> string list" where
  "opened tr = concat (map (\<lambda>p. opened_names (fst p)) tr)"

definition scanned :: "stamped list \<Rightarrow> string list" where
  "scanned tr = concat (map (\<lambda>p. scanned_names (fst p)) tr)"






section \<open>An example environment\<close>

text \<open>
  A directory \<open>/d\<close> with three files, one of which cannot be opened, and a subdirectory;
  a file \<open>/missing\<close> that cannot be opened; \<open>open\<close> raises \<open>ValueError\<close> on a name that
  holds a NUL character, as the interpreter does; a per-item callback that raises on the
  file \<open>/bad\<close>; an all-done callback that returns.
\<close>

definition example_env :: env where
  "example_env =
     \<lparr>isdir = (\<lambda>p. p = ''/d''),
      scandir = (\<lambda>p. if p = ''/d''
                      then Inr [\<lparr>path = ''/d/a'', is_file = True\<rparr>,
                                \<lparr>path = ''/d/sub'', is_file = False\<rparr>,
                                \<lparr>path = ''/d/b'', is_file = True\<rparr>,
                                \<lparr>path = ''/d/locked'', is_file = True\<rparr>]
                      else Inl (OSError ''Not a directory'')),
      open_rb = (\<lambda>p. if CHR 0x00 \<in> set p then OpenRaises (ValueError ''embedded null byte'')
                      else if p = ''/missing''
                        then OpenOSError (OSError ''No such file or directory'')
                      else if p = ''/d/locked'' then OpenOSError (OSError ''Permission denied'')
                      else Opened),
      user_cb_single = (\<lambda>f. if name f = ''/bad'' then Some (Raised ''boom'') else None),
      user_cb_all = (\<lambda>n. None)\<rparr>"

text \<open>
  An object with one remote download in flight, as \<open>initiate\<close> leaves it, and three ways
  that download can finish: failed, successful, and successful with a file on which the
  per-item callback raises.
\<close>

definition one_remote :: world where
  "one_remote =
     \<lparr>self = \<lparr>urls = [QUrl ''https'' ''example.org/hosts''], in_progress = [0],
               done_count = 0, finished_registering_downloads = True, started = True,
               finished = False\<rparr>,
      trace =
        [(DownloadTemp (QUrl ''https'' ''example.org/hosts'') 0,
          \<lparr>urls = [QUrl ''https'' ''example.org/hosts''], in_progress = [], done_count = 0,
           finished_registering_downloads = False, started = True, finished = False\<rparr>),
         (Append 0,
          \<lparr>urls = [QUrl ''https'' ''example.org/hosts''], in_progress = [0], done_count = 0,
           finished_registering_downloads = False, started = True, finished = False\<rparr>),
         (Connect 0,
          \<lparr>urls = [QUrl ''https'' ''example.org/hosts''], in_progress = [0], done_count = 0,
           finished_registering_downloads = False, started = True, finished = False\<rparr>)],
      next_ident = 1\<rparr>"

definition failed_download :: TempDownload where
  "failed_download = \<lparr>ident = 0, successful = False, fileobj = NoneValue\<rparr>"

definition good_download :: TempDownload where
  "good_download = \<lparr>ident = 0, successful = True, fileobj = IO (FileObj 5 ''/tmp/hosts'')\<rparr>"

definition bad_download :: TempDownload where
  "bad_download = \<lparr>ident = 0, successful = True, fileobj = IO (FileObj 5 ''/bad'')\<rparr>"

section \<open>What the methods keep\<close>

lemma emit_simps [simp]:
  "self (emit e w) = self w" "next_ident (emit e w) = next_ident w"
  "trace (emit e w) = trace w @ [(e, self w)]"
  by (simp_all add: emit_def)

lemma all_done_calls_simps [simp]:
  "all_done_calls [] = []"
  "all_done_calls (tr @ tr') = all_done_calls tr @ all_done_calls tr'"
  "all_done_calls ((e, s) # tr) = (if is_cb_all e then (e, s) # all_done_calls tr else all_done_calls tr)"
  by (simp_all add: all_done_calls_def)

lemma dispatched_simps [simp]:
  "dispatched [] = 0"
  "dispatched (tr @ tr') = dispatched tr + dispatched tr'"
  "dispatched ((e, s) # tr) = (if is_append e then Suc (dispatched tr) else dispatched tr)"
  by (simp_all add: dispatched_def)

lemma stamps_bounded_append:
  "stamps_bounded k (tr @ tr') = (stamps_bounded k tr \<and> stamps_bounded (k + dispatched tr) tr')"
  by (induction tr arbitrary: k) auto

lemma stamps_bounded_nth:
  "stamps_bounded k tr \<Longrightarrow> i < length tr \<Longrightarrow>
   done_count (snd (tr ! i)) + length (in_progress (snd (tr ! i)))
     \<le> k + dispatched (take (Suc i) tr)"
proof (induction tr arbitrary: k i)
  case Nil
  then show ?case by simp
next
  case (Cons p tr)
  obtain e s where p: "p = (e, s)" by (cases p)
  show ?case
  proof (cases i)
    case 0
    then show ?thesis using Cons.prems p by auto
  next
    case (Suc j)
    then show ?thesis
      using Cons.IH [of "if is_append e then Suc k else k" j] Cons.prems p
      by (auto split: if_splits)
  qed
qed

lemma evolves_refl: "evolves w w"
  by (simp add: evolves_def)

lemma evolves_trans: "evolves a b \<Longrightarrow> evolves b c \<Longrightarrow> evolves a c"
  by (simp add: evolves_def)

lemma length_remove1_mem: "x \<in> set xs \<Longrightarrow> Suc (length (remove1 x xs)) = length xs"
  by (simp add: length_remove1) (cases xs; simp)

lemma odf_evolves: "evolves w (snd (on_download_finished E d w))"
  unfolding evolves_def on_download_finished_def and_then_def Let_def call_user_cb_all_def consistent_def
  using length_remove1_mem [of "ident d" "in_progress (self w)"]
  by (auto simp: list_all_iff stamps_bounded_append
        split: fileobj_attr.splits option.splits dest: notin_set_remove1)

lemma emit_evolves: "\<not> is_cb_all e \<Longrightarrow> \<not> is_append e \<Longrightarrow> evolves w (emit e w)"
  by (cases e) (simp_all add: evolves_def consistent_def stamps_bounded_append)

lemma append_evolves:
  "next_ident w \<le> d \<Longrightarrow> d < n \<Longrightarrow>
   evolves w (emit (Append d)
     (w\<lparr>next_ident := n, self := (self w)\<lparr>in_progress := in_progress (self w) @ [d]\<rparr>\<rparr>))"
  by (auto simp: evolves_def consistent_def list_all_iff stamps_bounded_append)

lemma import_local_evolves: "evolves w (snd (import_local E filename w))"
proof (cases "open_rb E filename")
  case (OpenRaises x)
  have "evolves w (emit (Open filename) w)"
    by (simp add: emit_evolves)
  then show ?thesis
    using OpenRaises by (simp add: import_local_def Let_def)
next
  case (OpenOSError e)
  have "evolves w (emit (Open filename) w)"
    by (simp add: emit_evolves)
  moreover have "evolves (emit (Open filename) w)
     (emit (MessageError (''blockutils: Error while reading '' @ filename @ '': '' @ strerror e))
        (emit (Open filename) w))"
    by (simp add: emit_evolves)
  ultimately have "evolves w
     (emit (MessageError (''blockutils: Error while reading '' @ filename @ '': '' @ strerror e))
        (emit (Open filename) w))"
    by (rule evolves_trans)
  then show ?thesis
    using OpenOSError by (simp add: import_local_def Let_def)
next
  case Opened
  let ?w0 = "emit (Open filename) w"
  let ?w2 = "emit (Append (Suc (next_ident ?w0)))
     (?w0\<lparr>next_ident := next_ident ?w0 + 2,
           self := (self ?w0)\<lparr>in_progress := in_progress (self ?w0) @ [Suc (next_ident ?w0)]\<rparr>\<rparr>)"
  have a: "evolves w ?w0"
    by (simp add: emit_evolves)
  have b: "evolves ?w0 ?w2"
    by (rule append_evolves) simp_all
  have c: "evolves ?w2 (snd (on_download_finished E
             (FakeDownload (Suc (next_ident ?w0)) (FileObj (next_ident ?w0) filename)) ?w2))"
    by (rule odf_evolves)
  have "snd (import_local E filename w) = snd (on_download_finished E
             (FakeDownload (Suc (next_ident ?w0)) (FileObj (next_ident ?w0) filename)) ?w2)"
    using Opened by (simp add: import_local_def Let_def FakeDownload_def)
  with evolves_trans [OF a evolves_trans [OF b c]] show ?thesis
    by simp
qed

lemma import_entries_evolves: "evolves w (snd (import_entries E entries w))"
proof (induction entries arbitrary: w)
  case Nil
  show ?case by (simp add: evolves_refl)
next
  case (Cons entry entries)
  show ?case
  proof (cases "is_file entry")
    case False
    then show ?thesis using Cons [of w] by simp
  next
    case True
    obtain r w' where il: "import_local E (path entry) w = (r, w')"
      by (cases "import_local E (path entry) w")
    have ev: "evolves w w'"
      using import_local_evolves [of w E "path entry"] il by simp
    show ?thesis
    proof (cases r)
      case None
      then show ?thesis
        using True il evolves_trans [OF ev Cons [of w']] by simp
    next
      case (Some e)
      then show ?thesis using True il ev by simp
    qed
  qed
qed

lemma download_blocklist_url_evolves: "evolves w (snd (download_blocklist_url E url w))"
proof (cases "scheme url = ''file''")
  case True
  have sc: "evolves w (emit (Scandir (toLocalFile url)) w)"
    by (simp add: emit_evolves)
  show ?thesis
  proof (cases "isdir E (toLocalFile url)")
    case False
    then show ?thesis
      using True import_local_evolves [of w E "toLocalFile url"]
      by (simp add: download_blocklist_url_def Let_def)
  next
    case d: True
    show ?thesis
    proof (cases "scandir E (toLocalFile url)")
      case (Inl e)
      then show ?thesis
        using True d sc by (simp add: download_blocklist_url_def Let_def)
    next
      case (Inr entries)
      then show ?thesis
        using True d evolves_trans [OF sc import_entries_evolves [of _ E entries]]
        by (simp add: download_blocklist_url_def Let_def)
    qed
  qed
next
  case False
  let ?w1 = "emit (DownloadTemp url (next_ident w)) w"
  let ?w2 = "emit (Append (next_ident ?w1))
     (?w1\<lparr>next_ident := next_ident ?w1 + 1,
           self := (self ?w1)\<lparr>in_progress := in_progress (self ?w1) @ [next_ident ?w1]\<rparr>\<rparr>)"
  have a: "evolves w ?w1"
    by (simp add: emit_evolves)
  have b: "evolves ?w1 ?w2"
    by (rule append_evolves) simp_all
  have c: "evolves ?w2 (emit (Connect (next_ident w)) ?w2)"
    by (simp add: emit_evolves)
  have "snd (download_blocklist_url E url w) = emit (Connect (next_ident w)) ?w2"
    using False by (simp add: download_blocklist_url_def Let_def emit_def)
  with evolves_trans [OF a evolves_trans [OF b c]] show ?thesis
    by simp
qed

lemma download_urls_evolves: "evolves w (snd (download_urls E us w))"
proof (induction us arbitrary: w)
  case Nil
  show ?case by (simp add: evolves_refl)
next
  case (Cons url us)
  obtain r w' where d: "download_blocklist_url E url w = (r, w')"
    by (cases "download_blocklist_url E url w")
  have ev: "evolves w w'"
    using download_blocklist_url_evolves [of w E url] d by simp
  show ?case
  proof (cases r)
    case None
    then show ?thesis
      using d evolves_trans [OF ev Cons [of w']] by simp
  next
    case (Some e)
    then show ?thesis using d ev by simp
  qed
qed

lemma initiate_started: "started (self (snd (initiate E w)))"
proof (cases "started (self w)")
  case True
  then show ?thesis by (simp add: initiate_def)
next
  case False
  let ?w1 = "w\<lparr>self := (self w)\<lparr>started := True\<rparr>\<rparr>"
  have "started (self (snd (download_urls E (urls (self w)) ?w1)))"
    using download_urls_evolves [of ?w1 E "urls (self w)"] by (simp add: evolves_def)
  then show ?thesis
    using False
    by (auto simp: initiate_def Let_def and_then_def call_user_cb_all_def
          split: prod.splits option.splits)
qed

lemma step_started: "started (self w) \<Longrightarrow> started (self (snd (step E c w)))"
  using odf_evolves [of w E] by (cases c) (simp_all add: initiate_started evolves_def)

lemma exec_started: "started (self w) \<Longrightarrow> started (self (exec E cs w))"
  by (induction cs arbitrary: w) (simp_all add: step_started)

lemma odf_fired_inv: "fired_inv w \<Longrightarrow> fired_inv (snd (on_download_finished E d w))"
  unfolding fired_inv_def on_download_finished_def and_then_def Let_def call_user_cb_all_def
  by (auto split: fileobj_attr.splits option.splits)

lemma consistent_init: "consistent (BlocklistDownloads_init us)"
  by (simp add: consistent_def BlocklistDownloads_init_def)

lemma initiate_init_reach:
  "reach_inv us (snd (initiate E (BlocklistDownloads_init us)))"
proof (cases "us = []")
  case True
  then show ?thesis
    by (simp add: reach_inv_def initiate_def BlocklistDownloads_init_def Let_def and_then_def
          call_user_cb_all_def consistent_def fired_inv_def split: option.splits)
next
  case False
  let ?w1 = "(BlocklistDownloads_init us)\<lparr>self := (self (BlocklistDownloads_init us))\<lparr>started := True\<rparr>\<rparr>"
  obtain r w2 where d: "download_urls E us ?w1 = (r, w2)"
    by (cases "download_urls E us ?w1")
  have ev: "evolves ?w1 w2"
    using download_urls_evolves [of ?w1 E us] d by simp
  have w1: "consistent ?w1" "all_done_calls (trace ?w1) = []" "urls (self ?w1) = us"
      "\<not> finished_registering_downloads (self ?w1)" "started (self ?w1)"
    by (simp_all add: consistent_def BlocklistDownloads_init_def)
  have w1': "\<not> finished (self ?w1)"
    by (simp add: BlocklistDownloads_init_def)
  from ev w1 w1' have w2: "consistent w2" "all_done_calls (trace w2) = []" "urls (self w2) = us"
      "started (self w2)" "\<not> finished (self w2)"
    by (simp_all add: evolves_def)
  show ?thesis
    using False d w2
    by (cases r)
      (auto simp: reach_inv_def initiate_def BlocklistDownloads_init_def Let_def and_then_def
          call_user_cb_all_def consistent_def fired_inv_def stamps_bounded_append)
qed

lemma step_reach_inv: "reach_inv us w \<Longrightarrow> reach_inv us (snd (step E c w))"
proof (cases c)
  case Initiate
  assume r: "reach_inv us w"
  show ?thesis
  proof (cases "started (self w)")
    case True
    then show ?thesis using r Initiate by (simp add: initiate_def)
  next
    case False
    with r have "w = BlocklistDownloads_init us" by (simp add: reach_inv_def)
    then show ?thesis using Initiate initiate_init_reach [of us E] by simp
  qed
next
  case (DownloadFinished d)
  assume r: "reach_inv us w"
  show ?thesis
  proof (cases "started (self w)")
    case True
    then show ?thesis
      using r DownloadFinished odf_evolves [of w E d] odf_fired_inv [of w E d]
      by (simp add: reach_inv_def evolves_def)
  next
    case False
    with r have "w = BlocklistDownloads_init us" by (simp add: reach_inv_def)
    then have "snd (on_download_finished E d w) = w"
      by (simp add: on_download_finished_def BlocklistDownloads_init_def)
    then show ?thesis using r DownloadFinished by simp
  qed
qed

lemma exec_reach_inv: "reach_inv us w \<Longrightarrow> reach_inv us (exec E cs w)"
  by (induction cs arbitrary: w) (simp_all add: step_reach_inv)

lemma init_reach_inv: "reach_inv us (BlocklistDownloads_init us)"
  by (simp add: reach_inv_def consistent_init fired_inv_def) (simp add: BlocklistDownloads_init_def)

subsection \<open>After the last download\<close>

lemma odf_nothing_in_flight:
  "in_progress (self w) = [] \<Longrightarrow>
   on_download_finished E d w = (Some (ValueError ''list.remove(x): x not in list''), w)"
  by (simp add: on_download_finished_def)

lemma exec_idle:
  "started (self w) \<Longrightarrow> in_progress (self w) = [] \<Longrightarrow> exec E cs w = w"
proof (induction cs)
  case Nil
  show ?case by simp
next
  case (Cons c cs)
  then show ?case
    by (cases c) (simp_all add: initiate_def odf_nothing_in_flight)
qed

lemma exec_finished_idle:
  "in_progress (self w) = [] \<Longrightarrow> exec E (map DownloadFinished ds) w = w"
  by (induction ds) (simp_all add: odf_nothing_in_flight)

lemma reach_inv_registered_started:
  assumes "reach_inv us w" and "finished_registering_downloads (self w)"
  shows "started (self w)"
proof (rule ccontr)
  assume "\<not> started (self w)"
  with assms(1) have "w = BlocklistDownloads_init us"
    by (simp add: reach_inv_def)
  then have "\<not> finished_registering_downloads (self w)"
    by (simp add: BlocklistDownloads_init_def)
  with assms(2) show False by simp
qed

lemma reach_inv_in_flight:
  "reach_inv us w \<Longrightarrow> in_progress (self w) \<noteq> [] \<Longrightarrow>
   all_done_calls (trace w) = [] \<and> \<not> finished (self w)"
  by (auto simp: reach_inv_def fired_inv_def)

subsection \<open>Resolving what is in flight\<close>

lemma odf_pending:
  assumes "pending w" and "ident d \<in> set (in_progress (self w))"
    and "successful d \<longrightarrow> (\<exists>f. fileobj d = IO f \<and> user_cb_single E f = None)"
  shows "pending (snd (on_download_finished E d w)) \<and>
         in_progress (self (snd (on_download_finished E d w))) =
           remove1 (ident d) (in_progress (self w))"
proof -
  have "in_progress (self w) \<noteq> []"
    using assms(2) by auto
  with assms(1) have "all_done_calls (trace w) = []"
      "finished_registering_downloads (self w)" "distinct (in_progress (self w))"
    by (simp_all add: pending_def)
  then show ?thesis
    using assms(2,3)
    by (auto simp: pending_def on_download_finished_def and_then_def call_user_cb_all_def Let_def)
qed

lemma resolve_all_fires_once:
  assumes "pending w"
    and "set (in_progress (self w)) \<subseteq> ident ` set ds"
    and "\<forall>d\<in>set ds. successful d \<longrightarrow> (\<exists>f. fileobj d = IO f \<and> user_cb_single E f = None)"
  shows "length (all_done_calls (trace (exec E (map DownloadFinished ds) w))) = 1"
  using assms
proof (induction ds arbitrary: w)
  case Nil
  then show ?case by (simp add: pending_def)
next
  case (Cons d ds)
  show ?case
  proof (cases "ident d \<in> set (in_progress (self w))")
    case False
    then have same: "snd (on_download_finished E d w) = w"
      by (simp add: on_download_finished_def)
    have "set (in_progress (self w)) \<subseteq> ident ` set ds"
      using Cons.prems(2) False by auto
    then show ?thesis
      using Cons.IH [of w] Cons.prems same by simp
  next
    case True
    let ?w' = "snd (on_download_finished E d w)"
    have p: "pending ?w'" and r: "in_progress (self ?w') = remove1 (ident d) (in_progress (self w))"
      using odf_pending [of w d E] Cons.prems True by simp_all
    have "distinct (in_progress (self w))"
      using Cons.prems(1) by (simp add: pending_def)
    then have "set (in_progress (self ?w')) \<subseteq> ident ` set ds"
      using Cons.prems(2) r by auto
    then show ?thesis
      using Cons.IH [of ?w'] p Cons.prems(3) by simp
  qed
qed

lemma initiate_returned_pending:
  assumes "fst (initiate E (BlocklistDownloads_init us)) = None" and "us \<noteq> []"
  shows "pending (snd (initiate E (BlocklistDownloads_init us)))"
proof -
  let ?w1 = "(BlocklistDownloads_init us)\<lparr>self := (self (BlocklistDownloads_init us))\<lparr>started := True\<rparr>\<rparr>"
  obtain r w2 where d: "download_urls E us ?w1 = (r, w2)"
    by (cases "download_urls E us ?w1")
  have ev: "evolves ?w1 w2"
    using download_urls_evolves [of ?w1 E us] d by simp
  have w1: "consistent ?w1" "all_done_calls (trace ?w1) = []"
      "\<not> finished_registering_downloads (self ?w1)"
    by (simp_all add: consistent_def BlocklistDownloads_init_def)
  from ev w1 have w2: "consistent w2" "all_done_calls (trace w2) = []"
    by (simp_all add: evolves_def)
  have "r = None"
    using assms d
    by (cases r) (simp_all add: initiate_def BlocklistDownloads_init_def Let_def and_then_def)
  then show ?thesis
    using assms(2) d w2
    by (auto simp: pending_def initiate_def BlocklistDownloads_init_def Let_def and_then_def
          call_user_cb_all_def consistent_def)
qed

lemma all_done_stamps:
  assumes "list_all stamp_ok tr" and "p \<in> set (all_done_calls tr)"
  shows "in_progress (snd p) = [] \<and> (finished_registering_downloads (snd p) \<or> urls (snd p) = [])"
proof -
  from assms(2) have "p \<in> set tr" "is_cb_all (fst p)"
    by (simp_all add: all_done_calls_def)
  with assms(1) have "stamp_ok p"
    by (simp add: list_all_iff)
  with \<open>is_cb_all (fst p)\<close> show ?thesis
    by (cases p, cases "fst p") simp_all
qed

lemma initiate_no_urls_eq:
  "initiate E (BlocklistDownloads_init []) =
     (user_cb_all E 0,
      \<lparr>self = \<lparr>urls = [], in_progress = [], done_count = 0,
               finished_registering_downloads = False, started = True,
               finished = (user_cb_all E 0 = None)\<rparr>,
       trace = [(UserCbAll 0 (user_cb_all E 0),
                 \<lparr>urls = [], in_progress = [], done_count = 0,
                  finished_registering_downloads = False, started = True, finished = False\<rparr>)],
       next_ident = 0\<rparr>)"
  by (cases "user_cb_all E 0")
     (simp_all add: initiate_def BlocklistDownloads_init_def and_then_def call_user_cb_all_def
        emit_def Let_def)

subsection \<open>Importing local files\<close>

lemma opened_simps [simp]:
  "opened [] = []" "opened (tr @ tr') = opened tr @ opened tr'"
  "opened ((e, s) # tr) = opened_names e @ opened tr"
  by (simp_all add: opened_def)

lemma scanned_simps [simp]:
  "scanned [] = []" "scanned (tr @ tr') = scanned tr @ scanned tr'"
  "scanned ((e, s) # tr) = scanned_names e @ scanned tr"
  by (simp_all add: scanned_def)

lemma single_calls_simps [simp]:
  "single_calls [] = []"
  "single_calls (tr @ tr') = single_calls tr @ single_calls tr'"
  "single_calls ((e, s) # tr) = (if is_cb_single e then (e, s) # single_calls tr else single_calls tr)"
  by (simp_all add: single_calls_def)







subsection \<open>Evaluating the methods\<close>

lemmas model_defs =
  initiate_def download_blocklist_url_def import_local_def on_download_finished_def
  call_user_cb_all_def and_then_def emit_def FakeDownload_def BlocklistDownloads_init_def
  example_env_def Let_def

lemma one_remote_eq:
  "exec example_env [Initiate] (BlocklistDownloads_init [QUrl ''https'' ''example.org/hosts''])
     = one_remote"
  by (simp add: model_defs one_remote_def)

section \<open>The claims\<close>

text \<open>
  C1. After any calls on a new object, each run to its end, the all-done callback was
  called at most once, and each call of it happened with nothing in flight and with
  \<open>_finished_registering_downloads\<close> true or the URL list empty. It was called exactly
  once when \<open>initiate\<close> returned and the calls of \<open>_on_download_finished\<close> after it cover
  every download then in flight, each of them failed or with a file on which the per-item
  callback returns. With no URL the flag is false at the call, as the example after the
  theorem shows: lines 86 to 89 call the callback and never set the flag.
\<close>

theorem all_done_callback_once:
  "length (all_done_calls (trace (exec E cs (BlocklistDownloads_init us)))) \<le> 1 \<and>
   (\<forall>p\<in>set (all_done_calls (trace (exec E cs (BlocklistDownloads_init us)))).
      in_progress (snd p) = [] \<and>
      (finished_registering_downloads (snd p) \<or> urls (snd p) = [])) \<and>
   (fst (initiate E (BlocklistDownloads_init us)) = None \<and>
    set (in_progress (self (snd (initiate E (BlocklistDownloads_init us))))) \<subseteq> ident ` set ds \<and>
    (\<forall>d\<in>set ds. successful d \<longrightarrow> (\<exists>f. fileobj d = IO f \<and> user_cb_single E f = None))
    \<longrightarrow> length (all_done_calls (trace
          (exec E (Initiate # map DownloadFinished ds) (BlocklistDownloads_init us)))) = 1)"
proof (intro conjI impI ballI)
  have inv: "reach_inv us (exec E cs (BlocklistDownloads_init us))"
    by (rule exec_reach_inv [OF init_reach_inv])
  then show "length (all_done_calls (trace (exec E cs (BlocklistDownloads_init us)))) \<le> 1"
    by (auto simp: reach_inv_def fired_inv_def)
  fix p
  assume "p \<in> set (all_done_calls (trace (exec E cs (BlocklistDownloads_init us))))"
  moreover have "list_all stamp_ok (trace (exec E cs (BlocklistDownloads_init us)))"
    using inv by (simp add: reach_inv_def consistent_def)
  ultimately show "in_progress (snd p) = []"
    and "finished_registering_downloads (snd p) \<or> urls (snd p) = []"
    using all_done_stamps by blast+
next
  assume h: "fst (initiate E (BlocklistDownloads_init us)) = None \<and>
    set (in_progress (self (snd (initiate E (BlocklistDownloads_init us))))) \<subseteq> ident ` set ds \<and>
    (\<forall>d\<in>set ds. successful d \<longrightarrow> (\<exists>f. fileobj d = IO f \<and> user_cb_single E f = None))"
  show "length (all_done_calls (trace
          (exec E (Initiate # map DownloadFinished ds) (BlocklistDownloads_init us)))) = 1"
  proof (cases "us = []")
    case True
    then show ?thesis
      by (simp add: initiate_no_urls_eq exec_finished_idle)
  next
    case False
    with h have "pending (snd (initiate E (BlocklistDownloads_init us)))"
      by (simp add: initiate_returned_pending)
    with h show ?thesis
      by (simp add: resolve_all_fires_once)
  qed
qed

theorem all_done_callback_once_witness:
  "length (all_done_calls (trace (exec example_env
      [Initiate,
       DownloadFinished \<lparr>ident = 2, successful = True, fileobj = IO (FileObj 7 ''/tmp/x'')\<rparr>]
      (BlocklistDownloads_init [QUrl ''file'' ''/a'', QUrl ''https'' ''h''])))) = 1"
proof -
  have "fst (initiate example_env
           (BlocklistDownloads_init [QUrl ''file'' ''/a'', QUrl ''https'' ''h''])) = None"
    by (simp add: model_defs)
  moreover have "in_progress (self (snd (initiate example_env
           (BlocklistDownloads_init [QUrl ''file'' ''/a'', QUrl ''https'' ''h''])))) = [2]"
    by (simp add: model_defs)
  moreover have "user_cb_single example_env (FileObj 7 ''/tmp/x'') = None"
    by (simp add: example_env_def)
  ultimately show ?thesis
    using all_done_callback_once [of example_env "[]"
        "[QUrl ''file'' ''/a'', QUrl ''https'' ''h'']"
        "[\<lparr>ident = 2, successful = True, fileobj = IO (FileObj 7 ''/tmp/x'')\<rparr>]"]
    by simp
qed

theorem all_done_with_flag_false:
  "all_done_calls (trace (snd (initiate example_env (BlocklistDownloads_init [])))) =
     [(UserCbAll 0 None,
       \<lparr>urls = [], in_progress = [], done_count = 0,
        finished_registering_downloads = False, started = True, finished = False\<rparr>)]"
  by (simp add: initiate_no_urls_eq example_env_def)

text \<open>
  C2. Whatever the first call of \<open>initiate\<close> did (no URL or some, finished or not, returned
  or raised), and whatever calls came after it, a second call of \<open>initiate\<close> raises the
  \<open>ValueError\<close> of line 83 and leaves the object as it was.
\<close>

theorem initiate_twice_fails:
  "initiate E' (exec E cs (snd (initiate E w))) =
     (Some (ValueError ''This download has already been initiated''),
      exec E cs (snd (initiate E w)))"
  using exec_started [OF initiate_started, of E cs E w] by (simp add: initiate_def)

theorem initiate_twice_fails_witness:
  "fst (initiate example_env
          (exec example_env [DownloadFinished failed_download]
             (snd (initiate example_env (BlocklistDownloads_init [QUrl ''https'' ''h''])))))
     = Some (ValueError ''This download has already been initiated'')"
  by (simp only: initiate_twice_fails fst_conv)





text \<open>
  C5. When \<open>open\<close> raises an \<open>OSError\<close>, \<open>_import_local\<close> passes to \<open>message.error\<close> a text
  that holds the file name and the error's \<open>strerror\<close>, and returns: the object is as it
  was (nothing appended to \<open>_in_progress\<close>, \<open>_done_count\<close> unchanged) and no callback is
  called.
\<close>

theorem import_local_open_fails:
  assumes "open_rb E filename = OpenOSError e"
  shows "import_local E filename w =
     (None, w\<lparr>trace := trace w @
        [(Open filename, self w),
         (MessageError (''blockutils: Error while reading '' @ filename @ '': '' @ strerror e),
          self w)]\<rparr>)"
  using assms by (simp add: import_local_def emit_def Let_def)

theorem import_local_open_fails_witness:
  "import_local example_env ''/missing'' (BlocklistDownloads_init [QUrl ''file'' ''/missing'']) =
     (None,
      \<lparr>self = \<lparr>urls = [QUrl ''file'' ''/missing''], in_progress = [], done_count = 0,
               finished_registering_downloads = False, started = False, finished = False\<rparr>,
       trace =
         [(Open ''/missing'',
           \<lparr>urls = [QUrl ''file'' ''/missing''], in_progress = [], done_count = 0,
            finished_registering_downloads = False, started = False, finished = False\<rparr>),
          (MessageError ''blockutils: Error while reading /missing: No such file or directory'',
           \<lparr>urls = [QUrl ''file'' ''/missing''], in_progress = [], done_count = 0,
            finished_registering_downloads = False, started = False, finished = False\<rparr>)],
       next_ident = 0\<rparr>)"
proof -
  have "open_rb example_env ''/missing'' = OpenOSError (OSError ''No such file or directory'')"
    by (simp add: example_env_def)
  from import_local_open_fails [OF this] show ?thesis
    by (simp add: BlocklistDownloads_init_def)
qed

text \<open>
  C6. When a successful download that is in flight finishes, its file is closed right
  after the per-item callback, whether the callback returned or raised; when it raised,
  the exception leaves \<open>_on_download_finished\<close> after the close, and nothing else is done.
\<close>

theorem on_download_finished_closes:
  assumes "ident d \<in> set (in_progress (self w))" and "successful d" and "fileobj d = IO f"
    and "s = (self w)\<lparr>in_progress := remove1 (ident d) (in_progress (self w)),
                      done_count := done_count (self w) + 1\<rparr>"
  shows "(\<exists>rest. trace (snd (on_download_finished E d w)) =
            trace w @ [(UserCbSingle f (user_cb_single E f), s), (Close f, s)] @ rest) \<and>
         (\<forall>e. user_cb_single E f = Some e \<longrightarrow>
            on_download_finished E d w =
              (Some e, w\<lparr>self := s,
                         trace := trace w @ [(UserCbSingle f (Some e), s), (Close f, s)]\<rparr>))"
  using assms
  by (auto simp: on_download_finished_def and_then_def call_user_cb_all_def emit_def Let_def
        split: option.splits)

theorem on_download_finished_closes_witness:
  "on_download_finished example_env bad_download one_remote =
     (Some (Raised ''boom''),
      one_remote\<lparr>self := (self one_remote)\<lparr>in_progress := [], done_count := 1\<rparr>,
        trace := trace one_remote @
          [(UserCbSingle (FileObj 5 ''/bad'') (Some (Raised ''boom'')),
            (self one_remote)\<lparr>in_progress := [], done_count := 1\<rparr>),
           (Close (FileObj 5 ''/bad''),
            (self one_remote)\<lparr>in_progress := [], done_count := 1\<rparr>)]\<rparr>)"
proof -
  have "ident bad_download \<in> set (in_progress (self one_remote))"
    and "successful bad_download" and "fileobj bad_download = IO (FileObj 5 ''/bad'')"
    and "(self one_remote)\<lparr>in_progress := [], done_count := 1\<rparr> =
         (self one_remote)\<lparr>in_progress :=
             remove1 (ident bad_download) (in_progress (self one_remote)),
           done_count := done_count (self one_remote) + 1\<rparr>"
    and "user_cb_single example_env (FileObj 5 ''/bad'') = Some (Raised ''boom'')"
    by (simp_all add: bad_download_def one_remote_def example_env_def)
  with on_download_finished_closes [of bad_download one_remote "FileObj 5 ''/bad''"
      "(self one_remote)\<lparr>in_progress := [], done_count := 1\<rparr>" example_env]
  show ?thesis by blast
qed

text \<open>
  C7. When a failed download that is in flight finishes, it is removed from
  \<open>_in_progress\<close>, \<open>_done_count\<close> stays, the per-item callback is not called, and the final
  check runs: the all-done callback is called exactly when nothing is left in flight and
  the registration is over.
\<close>

theorem on_download_finished_failed:
  assumes "ident d \<in> set (in_progress (self w))" and "\<not> successful d"
    and "s = (self w)\<lparr>in_progress := remove1 (ident d) (in_progress (self w))\<rparr>"
  shows "on_download_finished E d w =
     (if in_progress s = [] \<and> finished_registering_downloads s
      then (user_cb_all E (done_count s),
            w\<lparr>self := s\<lparr>finished := True\<rparr>,
              trace := trace w @
                [(UserCbAll (done_count s) (user_cb_all E (done_count s)), s\<lparr>finished := True\<rparr>)]\<rparr>)
      else (None, w\<lparr>self := s\<rparr>))"
  using assms
  by (simp add: on_download_finished_def and_then_def call_user_cb_all_def emit_def Let_def)

theorem on_download_finished_failed_witness:
  "on_download_finished example_env failed_download one_remote =
     (None,
      one_remote\<lparr>self := (self one_remote)\<lparr>in_progress := [], finished := True\<rparr>,
        trace := trace one_remote @
          [(UserCbAll 0 None, (self one_remote)\<lparr>in_progress := [], finished := True\<rparr>)]\<rparr>)"
proof -
  have "ident failed_download \<in> set (in_progress (self one_remote))"
    and "\<not> successful failed_download"
    and "(self one_remote)\<lparr>in_progress := []\<rparr> =
         (self one_remote)\<lparr>in_progress :=
             remove1 (ident failed_download) (in_progress (self one_remote))\<rparr>"
    by (simp_all add: failed_download_def one_remote_def)
  from on_download_finished_failed [OF this, of example_env] show ?thesis
    by (simp add: one_remote_def example_env_def)
qed

text \<open>
  C8. After any calls on a new object, \<open>_done_count\<close> is at most the number of downloads
  appended to \<open>_in_progress\<close> so far; and the same held at every event of the run, for the
  object as it was at that event.
\<close>

theorem done_count_le_dispatched:
  assumes "W = exec E cs (BlocklistDownloads_init us)"
  shows "done_count (self W) \<le> dispatched (trace W) \<and>
         (\<forall>i<length (trace W).
            done_count (snd (trace W ! i)) \<le> dispatched (take (Suc i) (trace W)))"
proof -
  have inv: "consistent W"
    using assms exec_reach_inv [OF init_reach_inv, of us E cs] by (simp add: reach_inv_def)
  then have "done_count (self W) \<le> dispatched (trace W)"
    by (simp add: consistent_def)
  moreover have "done_count (snd (trace W ! i)) \<le> dispatched (take (Suc i) (trace W))"
    if "i < length (trace W)" for i
    using stamps_bounded_nth [of 0 "trace W" i] inv that by (simp add: consistent_def)
  ultimately show ?thesis by simp
qed

theorem done_count_le_dispatched_witness:
  "done_count (self (exec example_env [Initiate]
      (BlocklistDownloads_init [QUrl ''file'' ''/x'', QUrl ''https'' ''h''])))
   \<le> dispatched (trace (exec example_env [Initiate]
      (BlocklistDownloads_init [QUrl ''file'' ''/x'', QUrl ''https'' ''h''])))"
  using done_count_le_dispatched [OF refl, of example_env "[Initiate]"
      "[QUrl ''file'' ''/x'', QUrl ''https'' ''h'']"]
  by blast




text \<open>
  C10. On an object reached by calls on a new one, when the registration is over and the
  download that finishes is the only one in flight and successful, and the per-item
  callback raises on its file, the exception leaves \<open>_on_download_finished\<close>, the all-done
  callback has not been called and \<open>_finished\<close> is not set; and no later call changes the
  object, so they never are.
\<close>

theorem callback_raises_on_last:
  assumes reach: "w = exec E cs0 (BlocklistDownloads_init us)"
    and reg: "finished_registering_downloads (self w)"
    and last: "in_progress (self w) = [ident d]"
    and ok: "successful d" "fileobj d = IO f"
    and raises: "user_cb_single E f = Some e"
  shows "fst (on_download_finished E d w) = Some e \<and>
         \<not> finished (self (snd (on_download_finished E d w))) \<and>
         all_done_calls (trace (snd (on_download_finished E d w))) = [] \<and>
         (\<forall>cs. exec E cs (snd (on_download_finished E d w)) = snd (on_download_finished E d w))"
proof -
  have inv: "reach_inv us w"
    using reach exec_reach_inv [OF init_reach_inv] by simp
  have st: "started (self w)"
    using inv reg by (rule reach_inv_registered_started)
  have quiet: "all_done_calls (trace w) = []" "\<not> finished (self w)"
    using reach_inv_in_flight [OF inv] last by simp_all
  let ?s = "(self w)\<lparr>in_progress := [], done_count := done_count (self w) + 1\<rparr>"
  have res: "on_download_finished E d w =
      (Some e, w\<lparr>self := ?s, trace := trace w @ [(UserCbSingle f (Some e), ?s), (Close f, ?s)]\<rparr>)"
    using last ok raises
    by (simp add: on_download_finished_def and_then_def emit_def Let_def)
  have idle: "exec E cs (snd (on_download_finished E d w)) = snd (on_download_finished E d w)" for cs
    by (rule exec_idle) (simp_all add: res st)
  show ?thesis
    using quiet idle by (simp add: res)
qed

theorem callback_raises_on_last_witness:
  "fst (on_download_finished example_env bad_download one_remote) = Some (Raised ''boom'') \<and>
   \<not> finished (self (snd (on_download_finished example_env bad_download one_remote))) \<and>
   all_done_calls (trace (snd (on_download_finished example_env bad_download one_remote))) = [] \<and>
   exec example_env [DownloadFinished bad_download, Initiate, DownloadFinished good_download]
     (snd (on_download_finished example_env bad_download one_remote)) =
   snd (on_download_finished example_env bad_download one_remote)"
proof -
  have "one_remote = exec example_env [Initiate]
      (BlocklistDownloads_init [QUrl ''https'' ''example.org/hosts''])"
    by (simp only: one_remote_eq)
  moreover have "finished_registering_downloads (self one_remote)"
    and "in_progress (self one_remote) = [ident bad_download]"
    and "successful bad_download" and "fileobj bad_download = IO (FileObj 5 ''/bad'')"
    and "user_cb_single example_env (FileObj 5 ''/bad'') = Some (Raised ''boom'')"
    by (simp_all add: one_remote_def bad_download_def example_env_def)
  ultimately show ?thesis
    using callback_raises_on_last [of one_remote example_env "[Initiate]"
        "[QUrl ''https'' ''example.org/hosts'']" bad_download "FileObj 5 ''/bad''" "Raised ''boom''"]
    by blast
qed

end
